theory Spec2Isabelle
  imports Main "HOL-Library.AList"
begin

section \<open>Data model\<close>

text \<open>
  The embedding follows \<^verbatim>\<open>ModelExport.rebuild_preprocessing_nodes\<close> and
  \<^verbatim>\<open>ModelExport.rebuild_schema\<close> of
  \<^verbatim>\<open>secretflow/component/model_export/model_export.py\<close>.

  A \<^verbatim>\<open>pyarrow\<close> field is a name with a type tag; a \<^verbatim>\<open>pa.Schema\<close> is the
  ordered sequence of its fields (iteration order, \<^verbatim>\<open>.names\<close>, \<^verbatim>\<open>.append\<close> and
  \<^verbatim>\<open>pa.schema(fields)\<close> all work on that sequence; nothing in \<^verbatim>\<open>pyarrow\<close> forbids
  two fields of one name).
\<close>

datatype pa_field = Fld (name: string) (ftype: string)

type_synonym schema = "pa_field list"

definition names :: "schema \<Rightarrow> string list" where
  "names s = map name s"

definition schema_append :: "schema \<Rightarrow> pa_field \<Rightarrow> schema" where
  "schema_append s f = s @ [f]"

section \<open>The schema repair step\<close>

text \<open>
  The first loop of \<^verbatim>\<open>rebuild_schema\<close> (source lines 240 to 252). The accumulator
  holds \<^verbatim>\<open>new_trace_fields\<close>, \<^verbatim>\<open>new_in_fields\<close> and \<^verbatim>\<open>new_out_fields\<close>.
\<close>

fun trace_loop ::
  "schema \<Rightarrow> schema \<Rightarrow> schema \<Rightarrow> pa_field list \<times> pa_field list \<times> pa_field list
    \<Rightarrow> pa_field list \<times> pa_field list \<times> pa_field list" where
  "trace_loop [] in_schema out_schema acc = acc"
| "trace_loop (f # fs) in_schema out_schema (new_trace_fields, new_in_fields, new_out_fields) =
     (let is_input = name f \<in> set (names in_schema);
          is_output = name f \<in> set (names out_schema);
          is_added = (\<not> is_input \<and> is_output)
      in if is_added
         then trace_loop fs in_schema out_schema (new_trace_fields, new_in_fields, new_out_fields)
         else trace_loop fs in_schema out_schema
                (new_trace_fields @ [f],
                 (if \<not> is_input then new_in_fields @ [f] else new_in_fields),
                 (if \<not> is_output then new_out_fields @ [f] else new_out_fields)))"

text \<open>The second loop (source lines 254 to 256), over the fields of \<^verbatim>\<open>in_schema\<close>.\<close>

fun input_loop :: "schema \<Rightarrow> schema \<Rightarrow> pa_field list \<Rightarrow> pa_field list" where
  "input_loop [] trace_schema new_trace_fields = new_trace_fields"
| "input_loop (f # fs) trace_schema new_trace_fields =
     (if name f \<notin> set (names trace_schema)
      then input_loop fs trace_schema (new_trace_fields @ [f])
      else input_loop fs trace_schema new_trace_fields)"

text \<open>
  \<^verbatim>\<open>rebuild_schema\<close>. The \<^verbatim>\<open>reveal\<close> of a schema held on a device returns the schema
  itself, so the arguments are the revealed schemas.
\<close>

definition rebuild_schema :: "schema \<Rightarrow> schema \<Rightarrow> schema \<Rightarrow> schema \<times> schema \<times> schema" where
  "rebuild_schema trace_schema in_schema out_schema =
     (case trace_loop trace_schema in_schema out_schema ([], [], []) of
        (new_trace_fields, new_in_fields, new_out_fields) \<Rightarrow>
          (input_loop in_schema trace_schema new_trace_fields,
           foldl schema_append in_schema new_in_fields,
           foldl schema_append out_schema new_out_fields))"

text \<open>The three results of the repair step, by name.\<close>

definition new_trace :: "schema \<Rightarrow> schema \<Rightarrow> schema \<Rightarrow> schema" where
  "new_trace t i ou = fst (rebuild_schema t i ou)"

definition new_in :: "schema \<Rightarrow> schema \<Rightarrow> schema \<Rightarrow> schema" where
  "new_in t i ou = fst (snd (rebuild_schema t i ou))"

definition new_out :: "schema \<Rightarrow> schema \<Rightarrow> schema \<Rightarrow> schema" where
  "new_out t i ou = snd (snd (rebuild_schema t i ou))"

text \<open>The fields the first loop keeps, in closed form (used in the proofs).\<close>

definition manufactured :: "schema \<Rightarrow> schema \<Rightarrow> pa_field \<Rightarrow> bool" where
  "manufactured in_schema out_schema f \<longleftrightarrow>
     name f \<notin> set (names in_schema) \<and> name f \<in> set (names out_schema)"

definition kept :: "schema \<Rightarrow> schema \<Rightarrow> schema \<Rightarrow> pa_field list" where
  "kept t i ou = filter (\<lambda>f. \<not> manufactured i ou f) t"

section \<open>Pipeline, nodes and errors\<close>

text \<open>
  A Python \<^verbatim>\<open>dict\<close> is an association list in insertion order: \<^verbatim>\<open>d[k]\<close> and
  \<^verbatim>\<open>k in d\<close> are \<^const>\<open>map_of\<close>, \<^verbatim>\<open>d[k] = v\<close> is \<^const>\<open>AList.update\<close> (an existing
  key keeps its position, a new key goes to the end), \<^verbatim>\<open>d.items()\<close> is the list
  itself. \<^verbatim>\<open>copy.deepcopy\<close> is the identity on these values.
\<close>

type_synonym ('k, 'v) dict = "('k \<times> 'v) list"

definition dict_get :: "('k, 'v) dict \<Rightarrow> 'k \<Rightarrow> 'v \<Rightarrow> 'v" where
  "dict_get d k dflt = (case map_of d k of None \<Rightarrow> dflt | Some v \<Rightarrow> v)"

definition has_key :: "('k, 'v) dict \<Rightarrow> 'k \<Rightarrow> bool" where
  "has_key d k \<longleftrightarrow> map_of d k \<noteq> None"

text \<open>
  Modelled from the spec: the enumeration \<^verbatim>\<open>ServingPhase\<close> is declared outside the
  source file; the spec names its three phases.
\<close>

datatype ServingPhase = PREPROCESSING | TRAIN_PREDICT | POSTPROCESSING

text \<open>A \<^verbatim>\<open>PYU\<close> device is identified by its party.\<close>

datatype pyu = PYU (party: string)

text \<open>
  Modelled from the spec: the per-party payload is opaque to the reconciler. A payload
  entry is a processing graph (one recorded by a component, or the empty graph made for a
  party the node does not have) or a schema; \<^verbatim>\<open>kwargs[pyu]\<close> is a dictionary of such
  entries, of which the reconciler reads only \<^verbatim>\<open>"trace_content"\<close>.
\<close>

datatype payload = Content string | EmptyGraph string schema | SchemaBytes schema

type_synonym kwargs = "(string, payload) dict"

text \<open>
  A node and the builder, with the fields the source reads: \<^verbatim>\<open>node.name\<close>,
  \<^verbatim>\<open>node.phase\<close>, the three per-party dictionaries of a node, \<^verbatim>\<open>builder.nodes\<close>
  and \<^verbatim>\<open>builder.pyus\<close>.
\<close>

record ServingNode =
  node_name :: string
  phase :: ServingPhase
  input_schemas :: "(pyu, schema) dict"
  output_schemas :: "(pyu, schema) dict"
  kwargs :: "(pyu, kwargs) dict"

record ServingBuilder =
  nodes :: "ServingNode list"
  pyus :: "pyu list"

text \<open>
  The three \<^verbatim>\<open>assert\<close> statements of the source (empty node list, phase of a collected
  node, a node with no input schema for a party), the \<^verbatim>\<open>KeyError\<close> of a dictionary
  read, and the \<^verbatim>\<open>ValueError\<close> that carries \<^verbatim>\<open>invalid_columns\<close>.
\<close>

datatype assertion = EmptyNodes | InvalidPhase ServingPhase | PartialNode

datatype error =
    AssertionError assertion
  | KeyError
  | ValueError "(string, string list) dict"

text \<open>
  Modelled from the spec: \<^verbatim>\<open>ServingNode.add\<close> is outside the source file; it installs
  the fragment of one party in the node (input schema, output schema and payload).
\<close>

definition add :: "ServingNode \<Rightarrow> pyu \<Rightarrow> schema \<Rightarrow> schema \<Rightarrow> kwargs \<Rightarrow> ServingNode" where
  "add node p in_schema out_schema kw =
     node\<lparr>input_schemas := AList.update p in_schema (input_schemas node),
          output_schemas := AList.update p out_schema (output_schemas node),
          kwargs := AList.update p kw (kwargs node)\<rparr>"

text \<open>
  Modelled from the spec: \<^verbatim>\<open>ServingNode.build_arrow_processing_kwargs\<close> is outside the
  source file; it packs the two schemas and the processing graph into the payload.
\<close>

definition build_arrow_processing_kwargs :: "schema \<Rightarrow> schema \<Rightarrow> payload \<Rightarrow> kwargs" where
  "build_arrow_processing_kwargs in_schema out_schema dag =
     [(''input_schema_bytes'', SchemaBytes in_schema),
      (''output_schema_bytes'', SchemaBytes out_schema),
      (''trace_content'', dag)]"

text \<open>
  Modelled from the spec: \<^verbatim>\<open>Table.from_schema(trace_schema).dump_serving_pb(name)\<close> is
  outside the source file; for a table on which nothing was traced it gives an empty
  graph whose input and output schema are the schema the table was made from.
\<close>

definition dump_serving_pb :: "schema \<Rightarrow> string \<Rightarrow> payload \<times> schema \<times> schema" where
  "dump_serving_pb trace_schema nm = (EmptyGraph nm trace_schema, trace_schema, trace_schema)"

section \<open>The backward pass\<close>

text \<open>
  The loop that collects \<^verbatim>\<open>nodes\<close> (source lines 178 to 186): every visited node is
  asserted to be a preprocessing or train/predict node, and the loop stops after the first
  train/predict node.
\<close>

fun collect_nodes :: "ServingNode list \<Rightarrow> ServingNode list \<Rightarrow> error + ServingNode list" where
  "collect_nodes [] acc = Inr acc"
| "collect_nodes (node # rest) acc =
     (if phase node \<notin> {PREPROCESSING, TRAIN_PREDICT}
      then Inl (AssertionError (InvalidPhase (phase node)))
      else if phase node = TRAIN_PREDICT then Inr (acc @ [node])
      else collect_nodes rest (acc @ [node]))"

text \<open>
  The body of the inner loop (source lines 198 to 214) for one node and one party. Every
  error is raised before \<^verbatim>\<open>node.add\<close>, so an error leaves the node as it was.
\<close>

definition process_pyu ::
  "pyu \<Rightarrow> ServingNode \<Rightarrow> (pyu, schema) dict \<Rightarrow> error + ServingNode \<times> (pyu, schema) dict" where
  "process_pyu p node trace_schemas =
     (let trace_schema = dict_get trace_schemas p []
      in case map_of (input_schemas node) p of
           None \<Rightarrow>
             if has_key (output_schemas node) p then Inl (AssertionError PartialNode)
             else if has_key (kwargs node) p then Inl (AssertionError PartialNode)
             else (case dump_serving_pb trace_schema (node_name node) of
                     (dag, in_schema, out_schema) \<Rightarrow>
                       Inr (add node p in_schema out_schema
                              (build_arrow_processing_kwargs in_schema out_schema dag),
                            trace_schemas))
         | Some node_in \<Rightarrow>
             (case map_of (output_schemas node) p of
                None \<Rightarrow> Inl KeyError
              | Some node_out \<Rightarrow>
                  (case rebuild_schema trace_schema node_in node_out of
                     (trace_schema', in_schema, out_schema) \<Rightarrow>
                       (case map_of (kwargs node) p of
                          None \<Rightarrow> Inl KeyError
                        | Some kw \<Rightarrow>
                            (case map_of kw ''trace_content'' of
                               None \<Rightarrow> Inl KeyError
                             | Some dag \<Rightarrow>
                                 Inr (add node p in_schema out_schema
                                        (build_arrow_processing_kwargs in_schema out_schema dag),
                                      AList.update p trace_schema' trace_schemas))))))"

text \<open>
  The inner loop over \<^verbatim>\<open>builder.pyus\<close>. The node is mutated in place, so the result
  carries the node as it is when the loop ends or raises.
\<close>

fun loop_pyus ::
  "pyu list \<Rightarrow> ServingNode \<Rightarrow> (pyu, schema) dict \<Rightarrow> ServingNode \<times> (error + (pyu, schema) dict)" where
  "loop_pyus [] node trace_schemas = (node, Inr trace_schemas)"
| "loop_pyus (p # ps) node trace_schemas =
     (case process_pyu p node trace_schemas of
        Inl e \<Rightarrow> (node, Inl e)
      | Inr (node', trace_schemas') \<Rightarrow> loop_pyus ps node' trace_schemas')"

text \<open>
  The outer loop, over the nodes in the order \<^verbatim>\<open>reversed(nodes)\<close> gives them. The
  result lists the nodes in that same order, as they are when the loop ends or raises.
\<close>

fun loop_nodes ::
  "pyu list \<Rightarrow> ServingNode list \<Rightarrow> (pyu, schema) dict
    \<Rightarrow> ServingNode list \<times> (error + (pyu, schema) dict)" where
  "loop_nodes ps [] trace_schemas = ([], Inr trace_schemas)"
| "loop_nodes ps (node # rest) trace_schemas =
     (case loop_pyus ps node trace_schemas of
        (node', Inl e) \<Rightarrow> (node' # rest, Inl e)
      | (node', Inr trace_schemas') \<Rightarrow>
          (case loop_nodes ps rest trace_schemas' of
             (rest', r) \<Rightarrow> (node' # rest', r)))"

section \<open>Validation of the final trace\<close>

text \<open>
  \<^verbatim>\<open>invalid_columns[party].append(name)\<close> on a \<^verbatim>\<open>defaultdict(list)\<close>.
\<close>

definition dd_append ::
  "string \<Rightarrow> string \<Rightarrow> (string, string list) dict \<Rightarrow> (string, string list) dict" where
  "dd_append k v d = AList.update k (dict_get d k [] @ [v]) d"

text \<open>
  The loop over the fields of one party's final trace schema (source lines 220 to 224);
  the accumulator holds \<^verbatim>\<open>invalid_columns\<close> and \<^verbatim>\<open>used_columns\<close>.
\<close>

fun scan_fields ::
  "string set \<Rightarrow> string \<Rightarrow> schema \<Rightarrow> (string, string list) dict \<times> string list
    \<Rightarrow> (string, string list) dict \<times> string list" where
  "scan_fields party_init_columns pty [] acc = acc"
| "scan_fields party_init_columns pty (f # fs) (invalid_columns, used_columns) =
     (if name f \<notin> party_init_columns
      then scan_fields party_init_columns pty fs
             (dd_append pty (name f) invalid_columns, used_columns)
      else scan_fields party_init_columns pty fs
             (invalid_columns, used_columns @ [name f]))"

text \<open>
  The loop over \<^verbatim>\<open>trace_schemas.items()\<close> (source lines 218 to 224);
  \<^verbatim>\<open>init_columns[pyu]\<close> raises \<^verbatim>\<open>KeyError\<close> for a party with no initial schema.
\<close>

fun scan_parties ::
  "(pyu, string set) dict \<Rightarrow> (pyu, schema) dict \<Rightarrow> (string, string list) dict \<times> string list
    \<Rightarrow> error + (string, string list) dict \<times> string list" where
  "scan_parties init_columns [] acc = Inr acc"
| "scan_parties init_columns ((p, sch) # rest) acc =
     (case map_of init_columns p of
        None \<Rightarrow> Inl KeyError
      | Some party_init_columns \<Rightarrow>
          scan_parties init_columns rest (scan_fields party_init_columns (party p) sch acc))"

definition check_columns ::
  "(pyu, string set) dict \<Rightarrow> (pyu, schema) dict \<Rightarrow> error + string list" where
  "check_columns init_columns trace_schemas =
     (case scan_parties init_columns trace_schemas ([], []) of
        Inl e \<Rightarrow> Inl e
      | Inr (invalid_columns, used_columns) \<Rightarrow>
          if length invalid_columns > 0 then Inl (ValueError invalid_columns)
          else Inr used_columns)"

section \<open>The reconciler\<close>

text \<open>
  \<^verbatim>\<open>rebuild_preprocessing_nodes\<close>. The nodes of the builder are mutated in place, so the
  function returns the builder as it is when the call returns or raises, next to the
  result. The nodes of a builder are distinct objects: a change of one node shows at its
  own position only. \<^verbatim>\<open>init_schemas\<close> maps a party to the schema of its part of the
  initial table; \<^verbatim>\<open>make_init_columns\<close> is the dictionary comprehension of source
  line 191.
\<close>

definition make_init_columns :: "(string, schema) dict \<Rightarrow> (pyu, string set) dict" where
  "make_init_columns init_schemas = map (\<lambda>(pty, s). (PYU pty, set (names s))) init_schemas"

definition rebuild_preprocessing_nodes ::
  "ServingBuilder \<Rightarrow> (string, schema) dict \<Rightarrow> ServingBuilder \<times> (error + string list)" where
  "rebuild_preprocessing_nodes builder init_schemas =
     (case nodes builder of
        [] \<Rightarrow> (builder, Inl (AssertionError EmptyNodes))
      | first # _ \<Rightarrow>
          if phase first \<notin> {PREPROCESSING, TRAIN_PREDICT} then (builder, Inr [])
          else
            (case collect_nodes (nodes builder) [] of
               Inl e \<Rightarrow> (builder, Inl e)
             | Inr ns \<Rightarrow>
                 if length ns = 0 then (builder, Inr [])
                 else
                   (let init_columns = make_init_columns init_schemas;
                        last_node = last ns;
                        ns' = butlast ns;
                        trace_schemas = input_schemas last_node
                    in case loop_nodes (pyus builder) (rev ns') trace_schemas of
                         (visited, r) \<Rightarrow>
                           (let builder' =
                                  builder\<lparr>nodes := rev visited @ drop (length ns') (nodes builder)\<rparr>
                            in case r of
                                 Inl e \<Rightarrow> (builder', Inl e)
                               | Inr trace_schemas' \<Rightarrow>
                                   (builder', check_columns init_columns trace_schemas')))))"

section \<open>Predicates of the statements\<close>

text \<open>
  The party's entry of \<^verbatim>\<open>invalid_columns\<close> lists the column: what the error message
  of the \<^verbatim>\<open>ValueError\<close> shows for the party.
\<close>

definition listed :: "(string, string list) dict \<Rightarrow> string \<Rightarrow> string \<Rightarrow> bool" where
  "listed bad pty n \<longleftrightarrow> (case map_of bad pty of None \<Rightarrow> False | Some cols \<Rightarrow> n \<in> set cols)"


section \<open>Example pipelines\<close>

text \<open>
  Pipelines for two parties, used to run the definitions on concrete inputs. The
  preprocessing node \<open>pre_node\<close> records a fragment for each party that consumes one
  column more than the train/predict node reads; \<open>gap_node\<close> records a fragment for
  the first party only.
\<close>

definition alice :: pyu where
  "alice = PYU ''alice''"

definition bob :: pyu where
  "bob = PYU ''bob''"

definition train_node :: ServingNode where
  "train_node =
     \<lparr>node_name = ''train'', phase = TRAIN_PREDICT,
      input_schemas = [(alice, [Fld ''x'' ''float'']), (bob, [Fld ''u'' ''float''])],
      output_schemas = [(alice, [Fld ''pred'' ''float''])],
      kwargs = []\<rparr>"

definition pre_node :: ServingNode where
  "pre_node =
     \<lparr>node_name = ''pre'', phase = PREPROCESSING,
      input_schemas = [(alice, [Fld ''x'' ''float'', Fld ''y'' ''float'']),
                       (bob, [Fld ''u'' ''float'', Fld ''v'' ''float''])],
      output_schemas = [(alice, [Fld ''x'' ''float'']), (bob, [Fld ''u'' ''float''])],
      kwargs = [(alice, [(''trace_content'', Content ''dag_a'')]),
                (bob, [(''trace_content'', Content ''dag_b'')])]\<rparr>"

definition gap_node :: ServingNode where
  "gap_node =
     \<lparr>node_name = ''gap'', phase = PREPROCESSING,
      input_schemas = [(alice, [Fld ''x'' ''float''])],
      output_schemas = [(alice, [Fld ''x'' ''float''])],
      kwargs = [(alice, [(''trace_content'', Content ''dag_g'')])]\<rparr>"

definition post_node :: ServingNode where
  "post_node =
     \<lparr>node_name = ''post'', phase = POSTPROCESSING,
      input_schemas = [], output_schemas = [], kwargs = []\<rparr>"

definition wide_init :: "(string, schema) dict" where
  "wide_init =
     [(''alice'', [Fld ''x'' ''float'', Fld ''y'' ''float'']),
      (''bob'', [Fld ''u'' ''float'', Fld ''v'' ''float''])]"

definition narrow_init :: "(string, schema) dict" where
  "narrow_init = [(''alice'', [Fld ''x'' ''float'']), (''bob'', [Fld ''u'' ''float''])]"

text \<open>
  A train/predict node with nothing upstream; the same node followed by a preprocessing
  node; a postprocessing node between the preprocessing node and the train/predict node;
  and the regular order.
\<close>

definition train_only_builder :: ServingBuilder where
  "train_only_builder = \<lparr>nodes = [train_node], pyus = [alice, bob]\<rparr>"

definition misordered_builder :: ServingBuilder where
  "misordered_builder = \<lparr>nodes = [train_node, pre_node], pyus = [alice, bob]\<rparr>"

definition interleaved_builder :: ServingBuilder where
  "interleaved_builder = \<lparr>nodes = [pre_node, post_node, train_node], pyus = [alice, bob]\<rparr>"

definition two_party_builder :: ServingBuilder where
  "two_party_builder = \<lparr>nodes = [pre_node, train_node], pyus = [alice, bob]\<rparr>"

text \<open>
  The preprocessing node after the backward pass over \<open>two_party_builder\<close>, and the
  trace schemas the pass ends with.
\<close>

definition pre_node_rebuilt :: ServingNode where
  "pre_node_rebuilt =
     pre_node\<lparr>kwargs :=
       [(alice, build_arrow_processing_kwargs [Fld ''x'' ''float'', Fld ''y'' ''float'']
                  [Fld ''x'' ''float''] (Content ''dag_a'')),
        (bob, build_arrow_processing_kwargs [Fld ''u'' ''float'', Fld ''v'' ''float'']
                [Fld ''u'' ''float''] (Content ''dag_b''))]\<rparr>"

definition final_trace :: "(pyu, schema) dict" where
  "final_trace =
     [(alice, [Fld ''x'' ''float'', Fld ''y'' ''float'']),
      (bob, [Fld ''u'' ''float'', Fld ''v'' ''float''])]"

section \<open>Properties of the schema repair step\<close>

lemma trace_loop_closed:
  "trace_loop t i ou (a, b, c) =
     (a @ kept t i ou,
      b @ filter (\<lambda>f. name f \<notin> set (names i)) (kept t i ou),
      c @ filter (\<lambda>f. name f \<notin> set (names ou)) (kept t i ou))"
  by (induction t arbitrary: a b c) (auto simp: kept_def manufactured_def Let_def)

lemma input_loop_closed:
  "input_loop i t a = a @ filter (\<lambda>f. name f \<notin> set (names t)) i"
  by (induction i arbitrary: a) auto

lemma foldl_schema_append: "foldl schema_append s fs = s @ fs"
  by (induction fs arbitrary: s) (auto simp: schema_append_def)

lemma new_trace_closed:
  "new_trace t i ou = kept t i ou @ filter (\<lambda>f. name f \<notin> set (names t)) i"
  by (simp add: new_trace_def rebuild_schema_def trace_loop_closed input_loop_closed)

lemma new_in_closed:
  "new_in t i ou = i @ filter (\<lambda>f. name f \<notin> set (names i)) (kept t i ou)"
  by (simp add: new_in_def rebuild_schema_def trace_loop_closed foldl_schema_append)

lemma new_out_closed:
  "new_out t i ou = ou @ filter (\<lambda>f. name f \<notin> set (names ou)) (kept t i ou)"
  by (simp add: new_out_def rebuild_schema_def trace_loop_closed foldl_schema_append)

lemma names_append: "names (xs @ ys) = names xs @ names ys"
  by (simp add: names_def)

lemma names_filter_subset: "set (names (filter P xs)) \<subseteq> set (names xs)"
  by (auto simp: names_def)

lemma distinct_names_filter: "distinct (names xs) \<Longrightarrow> distinct (names (filter P xs))"
  by (simp add: names_def distinct_map_filter)

lemma names_kept_subset: "set (names (kept t i ou)) \<subseteq> set (names t)"
  by (simp add: kept_def names_filter_subset)

lemma input_names_in_new_trace: "set (names i) \<subseteq> set (names (new_trace t i ou))"
proof
  fix n assume "n \<in> set (names i)"
  then obtain g where g: "g \<in> set i" "name g = n"
    by (auto simp: names_def)
  show "n \<in> set (names (new_trace t i ou))"
  proof (cases "n \<in> set (names t)")
    case True
    then obtain f where f: "f \<in> set t" "name f = n"
      by (auto simp: names_def)
    with \<open>n \<in> set (names i)\<close> have "f \<in> set (kept t i ou)"
      by (simp add: kept_def manufactured_def)
    with f show ?thesis
      by (auto simp: new_trace_closed names_def)
  next
    case False
    with g show ?thesis
      by (auto simp: new_trace_closed names_def)
  qed
qed

lemma kept_alt:
  "kept t i ou = filter (\<lambda>g. name g \<in> set (names i) \<or> name g \<notin> set (names ou)) t"
  by (simp add: kept_def manufactured_def)


lemma name_in_names: "f \<in> set s \<Longrightarrow> name f \<in> set (names s)"
  by (simp add: names_def)

lemma scan_fields_used:
  "snd (scan_fields cols pty s (bad, used)) = used @ filter (\<lambda>n. n \<in> cols) (names s)"
  by (induction s arbitrary: bad used) (simp_all add: names_def)



text \<open>
  Claim C6. In \<^verbatim>\<open>rebuild_schema\<close>, every field of \<^verbatim>\<open>in_schema\<close> whose name is not in
  the trace schema is in the returned trace schema: the returned trace is the kept fields
  of the old trace followed by exactly those fields of \<^verbatim>\<open>in_schema\<close>, in order.
\<close>

theorem input_field_appended:
  assumes "rebuild_schema trace_schema in_schema out_schema = (nt, ni, no)"
    and "f \<in> set in_schema"
    and "name f \<notin> set (names trace_schema)"
  shows "f \<in> set nt \<and>
         nt = filter (\<lambda>g. name g \<in> set (names in_schema) \<or> name g \<notin> set (names out_schema))
                trace_schema
              @ filter (\<lambda>g. name g \<notin> set (names trace_schema)) in_schema"
proof -
  have nt: "nt = new_trace trace_schema in_schema out_schema"
    using assms(1) by (simp add: new_trace_def)
  show ?thesis
    using assms(2,3) by (simp add: nt new_trace_closed kept_alt)
qed

theorem input_field_appended_witness:
  "rebuild_schema [Fld ''age'' ''int'', Fld ''bucket'' ''int'']
       [Fld ''age'' ''int'', Fld ''income'' ''int'']
       [Fld ''age'' ''int'', Fld ''bucket'' ''int'']
     = ([Fld ''age'' ''int'', Fld ''income'' ''int''],
        [Fld ''age'' ''int'', Fld ''income'' ''int''],
        [Fld ''age'' ''int'', Fld ''bucket'' ''int''])
   \<and> Fld ''income'' ''int'' \<in> set [Fld ''age'' ''int'', Fld ''income'' ''int'']"
proof -
  have h: "rebuild_schema [Fld ''age'' ''int'', Fld ''bucket'' ''int'']
       [Fld ''age'' ''int'', Fld ''income'' ''int'']
       [Fld ''age'' ''int'', Fld ''bucket'' ''int'']
     = ([Fld ''age'' ''int'', Fld ''income'' ''int''],
        [Fld ''age'' ''int'', Fld ''income'' ''int''],
        [Fld ''age'' ''int'', Fld ''bucket'' ''int''])"
    by (simp add: rebuild_schema_def names_def schema_append_def)
  from input_field_appended[OF h, of "Fld ''income'' ''int''"]
  show ?thesis using h by (simp add: names_def)
qed

lemma filter_kept_new_trace:
  "kept (new_trace t i ou) i ou = new_trace t i ou"
proof -
  have "\<not> manufactured i ou f" if "f \<in> set (new_trace t i ou)" for f
    using that by (auto simp: new_trace_closed kept_def manufactured_def name_in_names)
  then show ?thesis
    by (subst kept_def) (simp add: filter_id_conv)
qed

lemma filter_input_new_trace:
  "filter (\<lambda>f. name f \<notin> set (names (new_trace t i ou))) i = []"
  using input_names_in_new_trace[of i t ou] by (auto simp: filter_empty_conv name_in_names)

text \<open>
  Claim C7. Applying \<^verbatim>\<open>rebuild_schema\<close> to the trace it returned, with the same
  \<^verbatim>\<open>in_schema\<close> and \<^verbatim>\<open>out_schema\<close>, returns that trace unchanged.
\<close>

theorem rebuild_schema_trace_fixed_point:
  "fst (rebuild_schema (fst (rebuild_schema trace_schema in_schema out_schema))
          in_schema out_schema)
   = fst (rebuild_schema trace_schema in_schema out_schema)"
proof -
  have "new_trace (new_trace trace_schema in_schema out_schema) in_schema out_schema
        = new_trace trace_schema in_schema out_schema"
    by (subst new_trace_closed) (simp add: filter_kept_new_trace filter_input_new_trace)
  then show ?thesis by (simp add: new_trace_def)
qed

theorem rebuild_schema_trace_fixed_point_witness:
  "fst (rebuild_schema (fst (rebuild_schema [Fld ''z'' ''int''] [Fld ''x'' ''int''] []))
          [Fld ''x'' ''int''] [])
   = [Fld ''z'' ''int'', Fld ''x'' ''int'']"
  using rebuild_schema_trace_fixed_point[of "[Fld ''z'' ''int'']" "[Fld ''x'' ''int'']" "[]"]
  by (simp add: rebuild_schema_def names_def schema_append_def)

lemma names_filter_disjoint:
  "set ns \<inter> set (names (filter (\<lambda>f. name f \<notin> set ns) ys)) = {}"
  by (induction ys) (simp_all add: names_def)

lemma distinct_names_extend:
  assumes "distinct (names xs)" "distinct (names ys)"
  shows "distinct (names (xs @ filter (\<lambda>f. name f \<notin> set (names xs)) (filter P ys)))"
proof -
  have "distinct (names (filter (\<lambda>f. name f \<notin> set (names xs)) (filter P ys)))"
    using assms(2) by (simp add: distinct_names_filter)
  moreover have "set (names xs) \<inter> set (names (filter (\<lambda>f. name f \<notin> set (names xs)) (filter P ys))) = {}"
    using names_filter_disjoint[of "names xs" "filter P ys"] .
  ultimately show ?thesis
    using assms(1) by (simp add: names_append)
qed

lemma rebuild_schema_distinct:
  assumes "rebuild_schema trace_schema in_schema out_schema = (nt, ni, no)"
    and "distinct (names trace_schema)"
    and "distinct (names in_schema)"
    and "distinct (names out_schema)"
  shows "distinct (names nt) \<and> distinct (names ni) \<and> distinct (names no)"
proof -
  have eqs: "nt = new_trace trace_schema in_schema out_schema"
    "ni = new_in trace_schema in_schema out_schema"
    "no = new_out trace_schema in_schema out_schema"
    using assms(1) by (simp_all add: new_trace_def new_in_def new_out_def)
  have "distinct (names ni)"
    unfolding eqs new_in_closed kept_def using assms(2,3) by (rule distinct_names_extend[rotated])
  moreover have "distinct (names no)"
    unfolding eqs new_out_closed kept_def using assms(2,4) by (rule distinct_names_extend[rotated])
  moreover have "distinct (names nt)"
  proof -
    have "distinct (names (kept trace_schema in_schema out_schema))"
      using assms(2) by (simp add: kept_def distinct_names_filter)
    moreover have "distinct (names (filter (\<lambda>f. name f \<notin> set (names trace_schema)) in_schema))"
      using assms(3) by (simp add: distinct_names_filter)
    moreover have "set (names (kept trace_schema in_schema out_schema))
        \<inter> set (names (filter (\<lambda>f. name f \<notin> set (names trace_schema)) in_schema)) = {}"
      using names_kept_subset[of trace_schema in_schema out_schema]
        names_filter_disjoint[of "names trace_schema" in_schema] by blast
    ultimately show ?thesis
      by (simp add: eqs new_trace_closed names_append)
  qed
  ultimately show ?thesis by simp
qed

text \<open>
  Claim C9. When no two fields of the trace schema share a name, and likewise for
  \<^verbatim>\<open>in_schema\<close> and \<^verbatim>\<open>out_schema\<close>, each of the three schemas that
  \<^verbatim>\<open>rebuild_schema\<close> returns has no two fields of one name.
\<close>

theorem rebuild_schema_distinct_names:
  assumes "rebuild_schema trace_schema in_schema out_schema = (nt, ni, no)"
    and "distinct (names trace_schema)"
    and "distinct (names in_schema)"
    and "distinct (names out_schema)"
  shows "distinct (names nt) \<and> distinct (names ni) \<and> distinct (names no)"
  using assms by (rule rebuild_schema_distinct)

theorem rebuild_schema_distinct_names_witness:
  "distinct (names [Fld ''age'' ''int'', Fld ''z'' ''int''])
   \<and> distinct (names [Fld ''income'' ''int''])
   \<and> distinct (names [Fld ''bucket'' ''int''])
   \<and> rebuild_schema [Fld ''age'' ''int'', Fld ''z'' ''int'']
        [Fld ''income'' ''int''] [Fld ''bucket'' ''int'']
      = ([Fld ''age'' ''int'', Fld ''z'' ''int'', Fld ''income'' ''int''],
         [Fld ''income'' ''int'', Fld ''age'' ''int'', Fld ''z'' ''int''],
         [Fld ''bucket'' ''int'', Fld ''age'' ''int'', Fld ''z'' ''int''])
   \<and> distinct (names [Fld ''age'' ''int'', Fld ''z'' ''int'', Fld ''income'' ''int''])
   \<and> distinct (names [Fld ''income'' ''int'', Fld ''age'' ''int'', Fld ''z'' ''int''])
   \<and> distinct (names [Fld ''bucket'' ''int'', Fld ''age'' ''int'', Fld ''z'' ''int''])"
proof -
  have h: "rebuild_schema [Fld ''age'' ''int'', Fld ''z'' ''int'']
        [Fld ''income'' ''int''] [Fld ''bucket'' ''int'']
      = ([Fld ''age'' ''int'', Fld ''z'' ''int'', Fld ''income'' ''int''],
         [Fld ''income'' ''int'', Fld ''age'' ''int'', Fld ''z'' ''int''],
         [Fld ''bucket'' ''int'', Fld ''age'' ''int'', Fld ''z'' ''int''])"
    by (simp add: rebuild_schema_def names_def schema_append_def)
  have d: "distinct (names [Fld ''age'' ''int'', Fld ''z'' ''int''])"
    "distinct (names [Fld ''income'' ''int''])"
    "distinct (names [Fld ''bucket'' ''int''])"
    by (simp_all add: names_def)
  from rebuild_schema_distinct_names[OF h d]
  show ?thesis using h d by simp
qed

section \<open>Properties of the backward pass and of the validation\<close>

lemma collect_nodes_Inl:
  "collect_nodes xs acc = Inl e \<longleftrightarrow>
     e = AssertionError (InvalidPhase POSTPROCESSING) \<and>
     (\<exists>n\<in>set (takeWhile (\<lambda>n. phase n \<noteq> TRAIN_PREDICT) xs). phase n = POSTPROCESSING)"
proof (induction xs arbitrary: acc)
  case Nil
  show ?case by simp
next
  case (Cons x xs)
  show ?case
    by (cases "phase x") (auto simp: Cons.IH)
qed

lemma collect_nodes_length:
  "collect_nodes xs acc = Inr ns \<Longrightarrow>
     length acc \<le> length ns \<and> (xs \<noteq> [] \<longrightarrow> length acc < length ns)"
proof (induction xs arbitrary: acc)
  case Nil
  then show ?case by simp
next
  case (Cons x xs)
  show ?case
  proof (cases "phase x")
    case PREPROCESSING
    with Cons.prems have "collect_nodes xs (acc @ [x]) = Inr ns" by simp
    from Cons.IH[OF this] show ?thesis by simp
  next
    case TRAIN_PREDICT
    with Cons.prems show ?thesis by auto
  next
    case POSTPROCESSING
    with Cons.prems show ?thesis by simp
  qed
qed

lemma collect_nodes_nonempty: "collect_nodes (x # xs) [] = Inr ns \<Longrightarrow> ns \<noteq> []"
  using collect_nodes_length[of "x # xs" "[]" ns] by auto

lemma process_pyu_error:
  "process_pyu p node ts = Inl e \<Longrightarrow> e = AssertionError PartialNode \<or> e = KeyError"
  by (auto simp: process_pyu_def Let_def dump_serving_pb_def
      split: option.splits if_splits prod.splits)

lemma loop_pyus_error:
  "loop_pyus ps node ts = (node', Inl e) \<Longrightarrow> e = AssertionError PartialNode \<or> e = KeyError"
proof (induction ps arbitrary: node ts)
  case Nil
  then show ?case by simp
next
  case (Cons p ps)
  show ?case
  proof (cases "process_pyu p node ts")
    case (Inl e')
    with Cons.prems have "e = e'" by simp
    with Inl process_pyu_error show ?thesis by blast
  next
    case (Inr r)
    obtain n1 t1 where r: "r = (n1, t1)" by (cases r)
    with Inr Cons.prems have "loop_pyus ps n1 t1 = (node', Inl e)" by simp
    from Cons.IH[OF this] show ?thesis .
  qed
qed

lemma loop_nodes_error:
  "loop_nodes ps ns ts = (visited, Inl e) \<Longrightarrow> e = AssertionError PartialNode \<or> e = KeyError"
proof (induction ns arbitrary: ts visited)
  case Nil
  then show ?case by simp
next
  case (Cons n ns)
  obtain n' r where lp: "loop_pyus ps n ts = (n', r)" by (cases "loop_pyus ps n ts")
  show ?case
  proof (cases r)
    case (Inl e')
    with lp Cons.prems have "e = e'" by simp
    with Inl lp loop_pyus_error show ?thesis by blast
  next
    case (Inr ts')
    obtain rest' r' where ln: "loop_nodes ps ns ts' = (rest', r')"
      by (cases "loop_nodes ps ns ts'")
    with lp Inr Cons.prems have "r' = Inl e" by simp
    with ln Cons.IH show ?thesis by blast
  qed
qed


lemma check_columns_error:
  "check_columns ic ts = Inl e \<Longrightarrow> e = KeyError \<or> (\<exists>bad. e = ValueError bad)"
proof -
  assume a: "check_columns ic ts = Inl e"
  have "scan_parties ic ts acc = Inl e' \<Longrightarrow> e' = KeyError" for acc e'
    by (induction ic ts acc rule: scan_parties.induct) (auto split: option.splits)
  with a show ?thesis
    by (auto simp: check_columns_def split: sum.splits prod.splits if_splits)
qed

text \<open>The result of the reconciler once the collection loop has succeeded.\<close>

lemma rebuild_unfold:
  assumes "nodes builder = first # rest"
    and "phase first \<in> {PREPROCESSING, TRAIN_PREDICT}"
    and "collect_nodes (nodes builder) [] = Inr ns"
    and "loop_nodes (pyus builder) (rev (butlast ns)) (input_schemas (last ns)) = (visited, r)"
  shows "rebuild_preprocessing_nodes builder init_schemas =
           (builder\<lparr>nodes := rev visited @ drop (length (butlast ns)) (nodes builder)\<rparr>,
            case r of Inl e \<Rightarrow> Inl e
            | Inr ts \<Rightarrow> check_columns (make_init_columns init_schemas) ts)"
proof -
  have "ns \<noteq> []"
    using assms(1,3) collect_nodes_nonempty by metis
  then show ?thesis
    using assms by (cases r) (simp_all add: rebuild_preprocessing_nodes_def Let_def)
qed

lemma map_of_make_init_columns:
  "map_of (make_init_columns init_schemas) p
     = map_option (\<lambda>s. set (names s)) (map_of init_schemas (party p))"
  by (induction init_schemas) (auto simp: make_init_columns_def pyu.expand)

lemma listed_iff: "listed bad pty n \<longleftrightarrow> (\<exists>cols. map_of bad pty = Some cols \<and> n \<in> set cols)"
  by (simp add: listed_def split: option.splits)


lemma listed_dd_append:
  "listed (dd_append k v d) pty n \<longleftrightarrow> listed d pty n \<or> (pty = k \<and> n = v)"
proof (cases "map_of d k")
  case None
  then show ?thesis
    by (auto simp: listed_def dd_append_def dict_get_def update_conv')
next
  case (Some cols)
  then show ?thesis
    by (auto simp: listed_def dd_append_def dict_get_def update_conv')
qed

lemma dd_append_nonempty: "dd_append k v d \<noteq> []"
  by (simp add: dd_append_def)

lemma scan_fields_listed:
  "listed (fst (scan_fields cols pty s (bad, used))) q n \<longleftrightarrow>
     listed bad q n \<or> (q = pty \<and> n \<in> set (names s) \<and> n \<notin> cols)"
  by (induction s arbitrary: bad used) (auto simp: names_def listed_dd_append)

lemma scan_fields_empty:
  "fst (scan_fields cols pty s (bad, used)) = [] \<longleftrightarrow>
     bad = [] \<and> (\<forall>f\<in>set s. name f \<in> cols)"
  by (induction s arbitrary: bad used) (auto simp: dd_append_nonempty)

lemma scan_parties_Inr:
  assumes "scan_parties ic ts (bad, used) = Inr (bad', used')"
  shows "(\<forall>(p, s)\<in>set ts. has_key ic p)
       \<and> used' = used @ concat (map (\<lambda>(p, s). filter (\<lambda>n. n \<in> dict_get ic p {}) (names s)) ts)
       \<and> (bad' = [] \<longleftrightarrow> bad = [] \<and> (\<forall>(p, s)\<in>set ts. \<forall>f\<in>set s. name f \<in> dict_get ic p {}))
       \<and> (\<forall>q n. listed bad' q n \<longleftrightarrow>
             listed bad q n \<or>
             (\<exists>(p, s)\<in>set ts. party p = q \<and> n \<in> set (names s) \<and> n \<notin> dict_get ic p {}))"
  using assms
proof (induction ts arbitrary: bad used)
  case Nil
  then show ?case by simp
next
  case (Cons ps ts)
  obtain p s where ps: "ps = (p, s)" by (cases ps)
  from Cons.prems ps obtain cols where cols: "map_of ic p = Some cols"
    by (auto split: option.splits)
  obtain b1 u1 where sf: "scan_fields cols (party p) s (bad, used) = (b1, u1)"
    by (cases "scan_fields cols (party p) s (bad, used)")
  from Cons.prems ps cols sf have rec: "scan_parties ic ts (b1, u1) = Inr (bad', used')"
    by simp
  note ih = Cons.IH[OF rec]
  have dg: "dict_get ic p {} = cols"
    by (simp add: dict_get_def cols)
  have u1: "u1 = used @ filter (\<lambda>n. n \<in> cols) (names s)"
    using scan_fields_used[of cols "party p" s bad used] sf by simp
  have b1e: "b1 = [] \<longleftrightarrow> bad = [] \<and> (\<forall>f\<in>set s. name f \<in> cols)"
    using scan_fields_empty[of cols "party p" s bad used] sf by simp
  have b1l: "listed b1 q n \<longleftrightarrow> listed bad q n \<or> (q = party p \<and> n \<in> set (names s) \<and> n \<notin> cols)"
    for q n
    using scan_fields_listed[of cols "party p" s bad used q n] sf by simp
  have 1: "\<forall>(p, s)\<in>set (ps # ts). has_key ic p"
    using ih ps cols by (simp add: has_key_def)
  have 2: "used' = used @ concat (map (\<lambda>(p, s). filter (\<lambda>n. n \<in> dict_get ic p {}) (names s)) (ps # ts))"
    using ih u1 ps dg by simp
  have 3: "bad' = [] \<longleftrightarrow> bad = [] \<and> (\<forall>(p, s)\<in>set (ps # ts). \<forall>f\<in>set s. name f \<in> dict_get ic p {})"
    using ih b1e ps dg by auto
  have 4: "listed bad' q n \<longleftrightarrow>
             listed bad q n \<or>
             (\<exists>(p, s)\<in>set (ps # ts). party p = q \<and> n \<in> set (names s) \<and> n \<notin> dict_get ic p {})"
    for q n
  proof -
    from ih have "listed bad' q n \<longleftrightarrow>
        listed b1 q n \<or>
        (\<exists>(p, s)\<in>set ts. party p = q \<and> n \<in> set (names s) \<and> n \<notin> dict_get ic p {})"
      by blast
    then show ?thesis
      using b1l[of q n] ps dg by auto
  qed
  from 1 2 3 4 show ?case by blast
qed


lemma check_columns_Inr:
  assumes "check_columns ic ts = Inr used"
  shows "used = concat (map (\<lambda>(p, s). names s) ts)
       \<and> (\<forall>(p, s)\<in>set ts. has_key ic p \<and> set (names s) \<subseteq> dict_get ic p {})"
proof -
  from assms obtain bad' used' where sp: "scan_parties ic ts ([], []) = Inr (bad', used')"
    by (auto simp: check_columns_def split: sum.splits)
  with assms have b: "bad' = []" and u: "used' = used"
    by (auto simp: check_columns_def split: if_splits)
  note f = scan_parties_Inr[OF sp]
  from f b have ok: "\<forall>(p, s)\<in>set ts. \<forall>f\<in>set s. name f \<in> dict_get ic p {}"
    by simp
  have "filter (\<lambda>n. n \<in> dict_get ic p {}) (names s) = names s" if "(p, s) \<in> set ts" for p s
    using ok that by (auto simp: names_def filter_id_conv)
  then have "map (\<lambda>(p, s). filter (\<lambda>n. n \<in> dict_get ic p {}) (names s)) ts
              = map (\<lambda>(p, s). names s) ts"
    by auto
  with f u have "used = concat (map (\<lambda>(p, s). names s) ts)"
    by simp
  moreover have "\<forall>(p, s)\<in>set ts. has_key ic p \<and> set (names s) \<subseteq> dict_get ic p {}"
    using f ok by (auto simp: names_def)
  ultimately show ?thesis by simp
qed

lemma dict_get_make_init_columns:
  "dict_get (make_init_columns init_schemas) p {}
     = set (names (dict_get init_schemas (party p) []))"
  by (simp add: dict_get_def map_of_make_init_columns names_def split: option.splits)

lemma has_key_make_init_columns:
  "has_key (make_init_columns init_schemas) p \<longleftrightarrow> has_key init_schemas (party p)"
  by (simp add: has_key_def map_of_make_init_columns)







text \<open>The body of the backward pass at a node with no input schema for the party.\<close>

lemma process_pyu_missing:
  assumes "map_of (input_schemas node) p = None"
  shows "if has_key (output_schemas node) p \<or> has_key (kwargs node) p
         then process_pyu p node trace_schemas = Inl (AssertionError PartialNode)
         else \<exists>node'.
                process_pyu p node trace_schemas = Inr (node', trace_schemas)
              \<and> map_of (input_schemas node') p = Some (dict_get trace_schemas p [])
              \<and> map_of (output_schemas node') p = Some (dict_get trace_schemas p [])
              \<and> map_of (kwargs node') p
                  = Some (build_arrow_processing_kwargs
                            (dict_get trace_schemas p []) (dict_get trace_schemas p [])
                            (EmptyGraph (node_name node) (dict_get trace_schemas p [])))"
  using assms
  by (simp add: process_pyu_def Let_def dump_serving_pb_def add_def update_conv')

text \<open>
  The body of the backward pass for one party leaves the fragments and the trace schemas
  of the other parties as they are. So, when the parties of the builder are distinct, a
  party with no input schema at a node gets there the identity fragment of its trace
  schema, whatever the pass does for the other parties at that node.
\<close>

lemma process_pyu_frame:
  assumes "process_pyu q node ts = Inr (node', ts')" and "q \<noteq> p"
  shows "map_of (input_schemas node') p = map_of (input_schemas node) p
       \<and> map_of (output_schemas node') p = map_of (output_schemas node) p
       \<and> map_of (kwargs node') p = map_of (kwargs node) p
       \<and> map_of ts' p = map_of ts p"
  using assms
  by (auto simp: process_pyu_def Let_def dump_serving_pb_def add_def update_conv'
      split: option.splits if_splits prod.splits)

lemma loop_pyus_frame:
  "loop_pyus ps node ts = (node', Inr ts') \<Longrightarrow> p \<notin> set ps \<Longrightarrow>
     map_of (input_schemas node') p = map_of (input_schemas node) p
   \<and> map_of (output_schemas node') p = map_of (output_schemas node) p
   \<and> map_of (kwargs node') p = map_of (kwargs node) p
   \<and> map_of ts' p = map_of ts p"
proof (induction ps arbitrary: node ts)
  case Nil
  then show ?case by simp
next
  case (Cons q ps)
  from Cons.prems(1) obtain n1 t1 where pp: "process_pyu q node ts = Inr (n1, t1)"
    and rec: "loop_pyus ps n1 t1 = (node', Inr ts')"
    by (cases "process_pyu q node ts") auto
  from Cons.prems(2) have "q \<noteq> p" "p \<notin> set ps" by auto
  with process_pyu_frame[OF pp] Cons.IH[OF rec] show ?case by simp
qed

lemma loop_pyus_missing_party:
  assumes "loop_pyus ps node ts = (node', Inr ts')"
    and "p \<in> set ps" and "distinct ps"
    and "map_of (input_schemas node) p = None"
  shows "\<not> has_key (output_schemas node) p \<and> \<not> has_key (kwargs node) p
       \<and> map_of (input_schemas node') p = Some (dict_get ts p [])
       \<and> map_of (output_schemas node') p = Some (dict_get ts p [])
       \<and> map_of ts' p = map_of ts p"
  using assms
proof (induction ps arbitrary: node ts)
  case Nil
  then show ?case by simp
next
  case (Cons q ps)
  from Cons.prems(1) obtain n1 t1 where pp: "process_pyu q node ts = Inr (n1, t1)"
    and rec: "loop_pyus ps n1 t1 = (node', Inr ts')"
    by (cases "process_pyu q node ts") auto
  show ?case
  proof (cases "q = p")
    case True
    with Cons.prems(3) have notin: "p \<notin> set ps" by simp
    note body = process_pyu_missing[OF Cons.prems(4), of ts]
    from pp True body have ok: "\<not> (has_key (output_schemas node) p \<or> has_key (kwargs node) p)"
      by auto
    with body pp True have "t1 = ts"
      and "map_of (input_schemas n1) p = Some (dict_get ts p [])"
      and "map_of (output_schemas n1) p = Some (dict_get ts p [])"
      by auto
    with loop_pyus_frame[OF rec notin] ok show ?thesis by simp
  next
    case False
    with Cons.prems(2,3) have "p \<in> set ps" "distinct ps" by auto
    moreover from process_pyu_frame[OF pp False] Cons.prems(4)
    have fr: "map_of (input_schemas n1) p = None"
      "map_of (output_schemas n1) p = map_of (output_schemas node) p"
      "map_of (kwargs n1) p = map_of (kwargs node) p"
      "map_of t1 p = map_of ts p"
      by simp_all
    ultimately have "\<not> has_key (output_schemas n1) p \<and> \<not> has_key (kwargs n1) p
       \<and> map_of (input_schemas node') p = Some (dict_get t1 p [])
       \<and> map_of (output_schemas node') p = Some (dict_get t1 p [])
       \<and> map_of ts' p = map_of t1 p"
      using Cons.IH[OF rec] by blast
    with fr show ?thesis
      by (simp add: has_key_def dict_get_def)
  qed
qed

text \<open>
  The fragment that the body of the backward pass installs for a party has schemas with
  no repeated name, as has the party's new trace schema, when this holds of the recorded
  schemas and of the trace schema.
\<close>

lemma process_pyu_distinct_names:
  assumes "process_pyu p node ts = Inr (node', ts')"
    and "distinct (names (dict_get ts p []))"
    and "distinct (names (dict_get (input_schemas node) p []))"
    and "distinct (names (dict_get (output_schemas node) p []))"
  shows "distinct (names (dict_get ts' p []))
       \<and> distinct (names (dict_get (input_schemas node') p []))
       \<and> distinct (names (dict_get (output_schemas node') p []))"
proof (cases "map_of (input_schemas node) p")
  case None
  with assms(1,2) show ?thesis
    by (auto simp: process_pyu_def Let_def dump_serving_pb_def add_def update_conv'
        dict_get_def split: if_splits)
next
  case (Some node_in)
  with assms(1) obtain node_out where no: "map_of (output_schemas node) p = Some node_out"
    by (auto simp: process_pyu_def Let_def split: option.splits)
  obtain nt ni nou where rs:
    "rebuild_schema (dict_get ts p []) node_in node_out = (nt, ni, nou)"
    by (cases "rebuild_schema (dict_get ts p []) node_in node_out")
  from assms(3,4) Some no have d: "distinct (names node_in)" "distinct (names node_out)"
    by (simp_all add: dict_get_def)
  note dn = rebuild_schema_distinct[OF rs assms(2) d]
  from assms(1) Some no rs have "dict_get ts' p [] = nt"
    "dict_get (input_schemas node') p [] = ni"
    "dict_get (output_schemas node') p [] = nou"
    by (auto simp: process_pyu_def Let_def add_def update_conv' dict_get_def
        split: option.splits)
  with dn show ?thesis by simp
qed

section \<open>The example pipelines, evaluated\<close>

lemmas example_defs =
  alice_def bob_def train_node_def pre_node_def gap_node_def post_node_def
  wide_init_def narrow_init_def train_only_builder_def misordered_builder_def
  interleaved_builder_def two_party_builder_def pre_node_rebuilt_def final_trace_def

lemmas model_defs =
  rebuild_preprocessing_nodes_def make_init_columns_def check_columns_def dd_append_def
  process_pyu_def dump_serving_pb_def build_arrow_processing_kwargs_def add_def
  rebuild_schema_def schema_append_def names_def dict_get_def has_key_def Let_def



lemma two_party_wide:
  "rebuild_preprocessing_nodes two_party_builder wide_init
     = (two_party_builder\<lparr>nodes := [pre_node_rebuilt, train_node]\<rparr>,
        Inr [''x'', ''y'', ''u'', ''v''])"
  by (simp add: example_defs model_defs)


lemma train_only_wide:
  "rebuild_preprocessing_nodes train_only_builder wide_init
     = (train_only_builder, Inr [''x'', ''u''])"
  by (simp add: example_defs model_defs)

lemma misordered_wide:
  "rebuild_preprocessing_nodes misordered_builder wide_init
     = (misordered_builder, Inr [''x'', ''u''])"
  by (simp add: example_defs model_defs)

lemma interleaved_wide:
  "rebuild_preprocessing_nodes interleaved_builder wide_init
     = (interleaved_builder, Inl (AssertionError (InvalidPhase POSTPROCESSING)))"
  by (simp add: example_defs model_defs)

section \<open>Claims about the reconciler\<close>

text \<open>
  Claim C1. For a pipeline whose first node is a preprocessing or train/predict node, a
  normal return of \<^verbatim>\<open>rebuild_preprocessing_nodes\<close> gives the names of the fields of
  the final trace schemas, party after party in the order of \<^verbatim>\<open>trace_schemas\<close>, and
  every name that a party's final trace schema contributes is a name of the initial
  schema of that party.
\<close>

theorem used_columns_in_init_schema:
  assumes "nodes builder = first # rest"
    and "phase first \<in> {PREPROCESSING, TRAIN_PREDICT}"
    and "rebuild_preprocessing_nodes builder init_schemas = (builder', Inr used)"
  shows "\<exists>ns visited ts.
           collect_nodes (nodes builder) [] = Inr ns
         \<and> loop_nodes (pyus builder) (rev (butlast ns)) (input_schemas (last ns))
             = (visited, Inr ts)
         \<and> used = concat (map (\<lambda>(p, s). names s) ts)
         \<and> (\<forall>(p, s)\<in>set ts. \<exists>init_schema.
               map_of init_schemas (party p) = Some init_schema
             \<and> set (names s) \<subseteq> set (names init_schema))"
proof -
  obtain ns where ns: "collect_nodes (nodes builder) [] = Inr ns"
    using assms by (cases "collect_nodes (nodes builder) []")
      (auto simp: rebuild_preprocessing_nodes_def)
  obtain visited r where ln:
    "loop_nodes (pyus builder) (rev (butlast ns)) (input_schemas (last ns)) = (visited, r)"
    by (cases "loop_nodes (pyus builder) (rev (butlast ns)) (input_schemas (last ns))")
  from rebuild_unfold[OF assms(1,2) ns ln, of init_schemas] assms(3)
  have r: "(case r of Inl e \<Rightarrow> Inl e
            | Inr ts \<Rightarrow> check_columns (make_init_columns init_schemas) ts) = Inr used"
    by simp
  then obtain ts where ts: "r = Inr ts"
    and cc: "check_columns (make_init_columns init_schemas) ts = Inr used"
    by (cases r) auto
  note c = check_columns_Inr[OF cc]
  have "\<exists>init_schema. map_of init_schemas (party p) = Some init_schema
          \<and> set (names s) \<subseteq> set (names init_schema)" if "(p, s) \<in> set ts" for p s
  proof -
    from c that have hk: "has_key init_schemas (party p)"
      and sub: "set (names s) \<subseteq> set (names (dict_get init_schemas (party p) []))"
      by (auto simp: has_key_make_init_columns dict_get_make_init_columns)
    from hk obtain i where "map_of init_schemas (party p) = Some i"
      by (auto simp: has_key_def)
    with sub show ?thesis by (simp add: dict_get_def)
  qed
  with ns ln ts c show ?thesis by blast
qed

theorem used_columns_in_init_schema_witness:
  "nodes two_party_builder = pre_node # [train_node]
   \<and> phase pre_node \<in> {PREPROCESSING, TRAIN_PREDICT}
   \<and> rebuild_preprocessing_nodes two_party_builder wide_init
       = (two_party_builder\<lparr>nodes := [pre_node_rebuilt, train_node]\<rparr>,
          Inr [''x'', ''y'', ''u'', ''v''])
   \<and> (\<exists>ns visited ts.
           collect_nodes (nodes two_party_builder) [] = Inr ns
         \<and> loop_nodes (pyus two_party_builder) (rev (butlast ns)) (input_schemas (last ns))
             = (visited, Inr ts)
         \<and> [''x'', ''y'', ''u'', ''v''] = concat (map (\<lambda>(p, s). names s) ts)
         \<and> (\<forall>(p, s)\<in>set ts. \<exists>init_schema.
               map_of wide_init (party p) = Some init_schema
             \<and> set (names s) \<subseteq> set (names init_schema)))"
proof -
  have h1: "nodes two_party_builder = pre_node # [train_node]"
    by (simp add: two_party_builder_def)
  have h2: "phase pre_node \<in> {PREPROCESSING, TRAIN_PREDICT}"
    by (simp add: pre_node_def)
  note h3 = two_party_wide
  from used_columns_in_init_schema[OF h1 h2 h3] h1 h2 h3 show ?thesis
    by blast
qed

text \<open>
  Claim C2 as the spec words it fails. A pipeline made of one train/predict node, with
  nothing upstream, does not give an empty list of used columns: the input schemas of
  that node are the final trace, and their field names are returned.
\<close>

theorem train_only_counterexample:
  "phase (hd (nodes train_only_builder)) = TRAIN_PREDICT
   \<and> tl (nodes train_only_builder) = []
   \<and> snd (rebuild_preprocessing_nodes train_only_builder wide_init) = Inr [''x'', ''u'']
   \<and> snd (rebuild_preprocessing_nodes train_only_builder wide_init) \<noteq> Inr []"
  by (simp add: train_only_wide) (simp add: train_only_builder_def train_node_def)

text \<open>
  Claim C2, amended. For a pipeline whose first node is a train/predict node,
  \<^verbatim>\<open>rebuild_preprocessing_nodes\<close> leaves the builder and all its nodes as they were;
  its result is the validation of the recorded input schemas of that node, so a normal
  return gives the field names of these schemas, party after party (the empty list only
  when they have no field).
\<close>

theorem train_first_untouched:
  assumes "nodes builder = first # rest"
    and "phase first = TRAIN_PREDICT"
  shows "fst (rebuild_preprocessing_nodes builder init_schemas) = builder
       \<and> snd (rebuild_preprocessing_nodes builder init_schemas)
           = check_columns (make_init_columns init_schemas) (input_schemas first)
       \<and> (\<forall>used. snd (rebuild_preprocessing_nodes builder init_schemas) = Inr used \<longrightarrow>
             used = concat (map (\<lambda>(p, s). names s) (input_schemas first)))"
proof -
  have cn: "collect_nodes (nodes builder) [] = Inr [first]"
    using assms by simp
  have ln: "loop_nodes (pyus builder) (rev (butlast [first])) (input_schemas (last [first]))
              = ([], Inr (input_schemas first))"
    by simp
  have ph: "phase first \<in> {PREPROCESSING, TRAIN_PREDICT}"
    using assms(2) by simp
  from rebuild_unfold[OF assms(1) ph cn ln, of init_schemas]
  have eq: "rebuild_preprocessing_nodes builder init_schemas
        = (builder, check_columns (make_init_columns init_schemas) (input_schemas first))"
    by simp
  then show ?thesis
    using check_columns_Inr[of "make_init_columns init_schemas" "input_schemas first"]
    by auto
qed

theorem train_first_untouched_witness:
  "nodes train_only_builder = train_node # []
   \<and> phase train_node = TRAIN_PREDICT
   \<and> fst (rebuild_preprocessing_nodes train_only_builder wide_init) = train_only_builder
   \<and> snd (rebuild_preprocessing_nodes train_only_builder wide_init)
       = check_columns (make_init_columns wide_init) (input_schemas train_node)
   \<and> snd (rebuild_preprocessing_nodes train_only_builder wide_init) = Inr [''x'', ''u'']
   \<and> [''x'', ''u''] = concat (map (\<lambda>(p, s). names s) (input_schemas train_node))"
proof -
  have h1: "nodes train_only_builder = train_node # []"
    by (simp add: train_only_builder_def)
  have h2: "phase train_node = TRAIN_PREDICT"
    by (simp add: train_node_def)
  have r: "snd (rebuild_preprocessing_nodes train_only_builder wide_init) = Inr [''x'', ''u'']"
    by (simp add: train_only_wide)
  from train_first_untouched[OF h1 h2, of wide_init] h1 h2 r show ?thesis
    by blast
qed

text \<open>
  Claim C3 as the spec words it fails. A pipeline with a preprocessing node after a
  train/predict node is not rejected: the collection loop stops at the first
  train/predict node and never looks at the nodes behind it.
\<close>

theorem phase_order_counterexample:
  "phase (nodes misordered_builder ! 0) = TRAIN_PREDICT
   \<and> phase (nodes misordered_builder ! 1) = PREPROCESSING
   \<and> rebuild_preprocessing_nodes misordered_builder wide_init
       = (misordered_builder, Inr [''x'', ''u''])"
  by (simp add: misordered_wide) (simp add: misordered_builder_def train_node_def pre_node_def)

text \<open>
  Claim C3, amended. For a pipeline whose first node is a preprocessing or train/predict
  node, \<^verbatim>\<open>rebuild_preprocessing_nodes\<close> raises the assertion error on the phase of a
  node exactly when a postprocessing node stands before the first train/predict node;
  the nodes after the first train/predict node have no part in it.
\<close>

theorem phase_assertion_iff:
  assumes "nodes builder = first # rest"
    and "phase first \<in> {PREPROCESSING, TRAIN_PREDICT}"
  shows "(\<exists>ph. snd (rebuild_preprocessing_nodes builder init_schemas)
                 = Inl (AssertionError (InvalidPhase ph)))
         \<longleftrightarrow> (\<exists>node\<in>set (takeWhile (\<lambda>node. phase node \<noteq> TRAIN_PREDICT) (nodes builder)).
                phase node = POSTPROCESSING)"
proof (cases "collect_nodes (nodes builder) []")
  case (Inl e)
  then have "snd (rebuild_preprocessing_nodes builder init_schemas) = Inl e"
    using assms by (simp add: rebuild_preprocessing_nodes_def del: collect_nodes.simps)
  with Inl show ?thesis
    using collect_nodes_Inl[of "nodes builder" "[]" e] by auto
next
  case (Inr ns)
  then have no: "\<not> (\<exists>node\<in>set (takeWhile (\<lambda>node. phase node \<noteq> TRAIN_PREDICT) (nodes builder)).
                phase node = POSTPROCESSING)"
    using collect_nodes_Inl[of "nodes builder" "[]"] by auto
  obtain visited r where ln:
    "loop_nodes (pyus builder) (rev (butlast ns)) (input_schemas (last ns)) = (visited, r)"
    by (cases "loop_nodes (pyus builder) (rev (butlast ns)) (input_schemas (last ns))")
  note u = rebuild_unfold[OF assms Inr ln, of init_schemas]
  have "snd (rebuild_preprocessing_nodes builder init_schemas)
          \<noteq> Inl (AssertionError (InvalidPhase ph))" for ph
  proof (cases r)
    case (Inl e)
    with ln loop_nodes_error have "e = AssertionError PartialNode \<or> e = KeyError"
      by blast
    with u Inl show ?thesis by auto
  next
    case (Inr ts)
    with u have "snd (rebuild_preprocessing_nodes builder init_schemas)
        = check_columns (make_init_columns init_schemas) ts"
      by simp
    with check_columns_error[of "make_init_columns init_schemas" ts] show ?thesis
      by auto
  qed
  with no show ?thesis by blast
qed

theorem phase_assertion_iff_witness:
  "nodes interleaved_builder = pre_node # [post_node, train_node]
   \<and> phase pre_node \<in> {PREPROCESSING, TRAIN_PREDICT}
   \<and> snd (rebuild_preprocessing_nodes interleaved_builder wide_init)
       = Inl (AssertionError (InvalidPhase POSTPROCESSING))
   \<and> (\<exists>node\<in>set (takeWhile (\<lambda>node. phase node \<noteq> TRAIN_PREDICT) (nodes interleaved_builder)).
         phase node = POSTPROCESSING)"
proof -
  have h1: "nodes interleaved_builder = pre_node # [post_node, train_node]"
    by (simp add: interleaved_builder_def)
  have h2: "phase pre_node \<in> {PREPROCESSING, TRAIN_PREDICT}"
    by (simp add: pre_node_def)
  have h3: "snd (rebuild_preprocessing_nodes interleaved_builder wide_init)
       = Inl (AssertionError (InvalidPhase POSTPROCESSING))"
    by (simp add: interleaved_wide)
  from phase_assertion_iff[OF h1 h2, of wide_init] h1 h2 h3 show ?thesis
    by blast
qed







end
